theory Spec2Isabelle
  imports
    Main
    "HOL-Library.Char_ord"
    "HOL-Library.List_Lexorder"
    "HOL-Library.Sublist"
    "HOL-Library.Multiset"
begin

section \<open>Texts and characters\<close>

text \<open>
  The program is \<^verbatim>\<open>app.py\<close>: a Telegram ticker digest. It stores incoming messages in an
  SQLite table, extracts ticker symbols from message texts with a regular expression, and
  renders a ranked digest of the symbols mentioned since a given moment.

  A Python \<^verbatim>\<open>str\<close> is modelled as a \<^typ>\<open>string\<close>. Message texts are taken to be ASCII, so
  that a \<^typ>\<open>char\<close> is one code point and \<^const>\<open>length\<close> is Python's \<^verbatim>\<open>len\<close>. Python's
  Unicode tables (\<^verbatim>\<open>str.upper\<close>, \<^verbatim>\<open>\w\<close>, \<^verbatim>\<open>str.strip\<close> beyond ASCII) belong to the
  interpreter, not to the repository; on the characters above 127 the functions below act
  as on punctuation. The two non-ASCII characters of the program's own literals (the dash
  and the bullet of the report) are written as their UTF-8 bytes.
\<close>

definition is_upper :: "char \<Rightarrow> bool" where
  "is_upper c \<longleftrightarrow> CHR ''A'' \<le> c \<and> c \<le> CHR ''Z''"

definition is_lower :: "char \<Rightarrow> bool" where
  "is_lower c \<longleftrightarrow> CHR ''a'' \<le> c \<and> c \<le> CHR ''z''"

definition is_digit :: "char \<Rightarrow> bool" where
  "is_digit c \<longleftrightarrow> CHR ''0'' \<le> c \<and> c \<le> CHR ''9''"

definition is_word :: "char \<Rightarrow> bool" where
  \<comment> \<open>\<^verbatim>\<open>\w\<close>: letters, digits and the underscore\<close>
  "is_word c \<longleftrightarrow> is_upper c \<or> is_lower c \<or> is_digit c \<or> c = CHR ''_''"

definition is_space :: "char \<Rightarrow> bool" where
  \<comment> \<open>\<^verbatim>\<open>str.isspace\<close> on ASCII: TAB, LF, VT, FF, CR, FS, GS, RS, US and the space\<close>
  "is_space c \<longleftrightarrow> (CHR 0x09 \<le> c \<and> c \<le> CHR 0x0D) \<or> (CHR 0x1C \<le> c \<and> c \<le> CHR 0x20)"

definition upper_table :: "(char \<times> char) list" where
  "upper_table = zip ''abcdefghijklmnopqrstuvwxyz'' ''ABCDEFGHIJKLMNOPQRSTUVWXYZ''"

definition upper_char :: "char \<Rightarrow> char" where
  "upper_char c = (case map_of upper_table c of Some u \<Rightarrow> u | None \<Rightarrow> c)"

definition upper :: "string \<Rightarrow> string" where
  \<comment> \<open>\<^verbatim>\<open>text.upper()\<close>\<close>
  "upper s = map upper_char s"

section \<open>Regular expressions with backtracking\<close>

text \<open>
  The fragment of Python's \<^verbatim>\<open>re\<close> that \<^verbatim>\<open>TICKER_REGEX\<close> is written in. A matcher state is
  the character before the current position (\<open>None\<close> at the start of the text), the rest of
  the text, and what group 1 has captured. \<open>rmatch\<close> returns every way to match, in the
  order in which a backtracking matcher tries them (greedy: longer first); the match that
  \<^verbatim>\<open>re\<close> reports is the first one.
\<close>

datatype regex =
    Lit char
  | Range char char
  | Alt regex regex
  | Seq regex regex
  | Opt regex
  | Rep regex nat nat
  | WordB
  | Group regex

type_synonym mstate = "char option \<times> string \<times> string option"

definition word_before :: "char option \<Rightarrow> bool" where
  "word_before p = (case p of None \<Rightarrow> False | Some c \<Rightarrow> is_word c)"

definition word_after :: "string \<Rightarrow> bool" where
  "word_after s = (case s of [] \<Rightarrow> False | c # _ \<Rightarrow> is_word c)"

definition at_boundary :: "char option \<Rightarrow> string \<Rightarrow> bool" where
  \<comment> \<open>\<^verbatim>\<open>\b\<close>: exactly one side of the position is a word character\<close>
  "at_boundary p s \<longleftrightarrow> word_before p \<noteq> word_after s"

function rmatch :: "regex \<Rightarrow> mstate \<Rightarrow> mstate list"
  and rep :: "regex \<Rightarrow> nat \<Rightarrow> nat \<Rightarrow> mstate \<Rightarrow> mstate list" where
  "rmatch (Lit c) (p, s, g) =
     (case s of [] \<Rightarrow> [] | x # xs \<Rightarrow> if x = c then [(Some x, xs, g)] else [])"
| "rmatch (Range lo hi) (p, s, g) =
     (case s of [] \<Rightarrow> [] | x # xs \<Rightarrow> if lo \<le> x \<and> x \<le> hi then [(Some x, xs, g)] else [])"
| "rmatch (Alt a b) st = rmatch a st @ rmatch b st"
| "rmatch (Seq a b) st = concat (map (rmatch b) (rmatch a st))"
| "rmatch (Opt a) st = rmatch a st @ [st]"
| "rmatch (Rep a m n) st = rep a m n st"
| "rmatch WordB (p, s, g) = (if at_boundary p s then [(p, s, g)] else [])"
| "rmatch (Group a) (p, s, g) =
     map (\<lambda>(p', s', g'). (p', s', Some (take (length s - length s') s))) (rmatch a (p, s, g))"
| "rep a m 0 st = (if m = 0 then [st] else [])"
| "rep a m (Suc n) st =
     concat (map (rep a (m - 1) n) (rmatch a st)) @ (if m = 0 then [st] else [])"
  by pat_completeness auto
termination
  by (relation "inv_image (less_than <*lex*> less_than)
        (\<lambda>x. case x of Inl (r, st) \<Rightarrow> (size r, 0) | Inr (a, m, n, st) \<Rightarrow> (size a, Suc n))")
     auto

text \<open>
  \<^verbatim>\<open>finditer\<close> scans from left to right: after a match it goes on where the match ended,
  and one character further when there was no match at the position or the match was
  empty.
\<close>

function finditer :: "regex \<Rightarrow> char option \<Rightarrow> string \<Rightarrow> mstate list" where
  "finditer r p s =
     (case rmatch r (p, s, None) of
        [] \<Rightarrow> (case s of [] \<Rightarrow> [] | c # cs \<Rightarrow> finditer r (Some c) cs)
      | (p', s', g) # _ \<Rightarrow>
          (p', s', g) #
          (if length s' < length s then finditer r p' s'
           else (case s of [] \<Rightarrow> [] | c # cs \<Rightarrow> finditer r (Some c) cs)))"
  by pat_completeness auto
termination
  by (relation "measure (\<lambda>(r, p, s). length s)") auto

definition group1 :: "mstate \<Rightarrow> string list" where
  \<comment> \<open>\<^verbatim>\<open>match.group(1)\<close>, as a list of one text; a group that took no part in the match
      gives none, which no match of \<open>TICKER_REGEX\<close> does (\<open>finditer_group_participates\<close>)\<close>
  "group1 st = (case snd (snd st) of None \<Rightarrow> [] | Some w \<Rightarrow> [w])"

section \<open>The symbol extractor\<close>

definition STOPWORDS :: "string list" where
  "STOPWORDS =
     [''THE'', ''AND'', ''FOR'', ''WITH'', ''THIS'', ''THAT'', ''FROM'', ''YOUR'', ''ABOUT'',
      ''WHAT'', ''WHEN'', ''WHERE'', ''HOW'', ''WILL'', ''HAVE'', ''JUST'', ''LIKE'', ''COIN'',
      ''TOKEN'', ''GROUP'', ''CHANNEL'']"

definition TICKER_REGEX :: regex where
  \<comment> \<open>\<^verbatim>\<open>(?:\$|#)?\b([A-Z]{2,6})\b\<close>\<close>
  "TICKER_REGEX =
     Seq (Opt (Alt (Lit CHR ''$'') (Lit CHR ''#'')))
       (Seq WordB (Seq (Group (Rep (Range CHR ''A'' CHR ''Z'') 2 6)) WordB))"

definition extract_tickers :: "string \<Rightarrow> string list" where
  "extract_tickers text =
     (if text = [] then []
      else
        let candidates = concat (map group1 (finditer TICKER_REGEX None (upper text)))
        in filter (\<lambda>ticker. ticker \<notin> set STOPWORDS) candidates)"


declare finditer.simps [simp del]

subsection \<open>Explicit tokenizers\<close>

text \<open>
  \<open>runs P s\<close> are the maximal runs of characters of \<open>s\<close> that satisfy \<open>P\<close>, from left to
  right. \<open>spec_tokenizer\<close> is the tokenizer of the specification's design notes, word for
  word: maximal runs of letters of the uppercased text, of length 2 to 6, without the
  stopwords. \<open>word_run_tokenizer\<close> cuts the text at the characters that are not word
  characters instead, and keeps the runs made of 2 to 6 capital letters only.
\<close>

function runs :: "(char \<Rightarrow> bool) \<Rightarrow> string \<Rightarrow> string list" where
  "runs P [] = []"
| "runs P (c # cs) =
     (if P c then takeWhile P (c # cs) # runs P (dropWhile P cs) else runs P cs)"
  by pat_completeness auto
termination
  by (relation "measure (\<lambda>(P, s). length s)") (auto simp: length_dropWhile_le less_Suc_eq_le)



definition valid_word :: "string \<Rightarrow> bool" where
  "valid_word w \<longleftrightarrow> 2 \<le> length w \<and> length w \<le> 6 \<and> list_all is_upper w"

definition candidates_of :: "string \<Rightarrow> string list" where
  "candidates_of s = filter valid_word (runs is_word s)"


definition token_at :: "string \<Rightarrow> bool" where
  \<comment> \<open>the text starts with 2 to 6 capital letters and no word character follows them\<close>
  "token_at s \<longleftrightarrow>
     2 \<le> length (takeWhile is_upper s) \<and> length (takeWhile is_upper s) \<le> 6 \<and>
     \<not> word_after (drop (length (takeWhile is_upper s)) s)"

section \<open>The message store\<close>

text \<open>
  The SQLite file is the state. \<open>messages\<close> is the table of that name, its rows in
  insertion order, or \<open>None\<close> before \<open>init_db\<close> has created it; the table always carries
  the unique index on \<open>(chat_id, message_id)\<close> that \<open>init_db\<close> creates with it. The
  surrogate key \<open>id\<close> is never read by the program and is left out. \<open>fault\<close> says which
  call of \<^verbatim>\<open>sqlite3\<close>, if any, raises: none of the store functions catches an exception, so
  the error reaches the caller; a transaction that is not committed leaves the table as it
  was. The specification calls this error \<open>StorageUnavailable\<close>.

  Of a \<^verbatim>\<open>datetime\<close> the program uses \<^verbatim>\<open>isoformat()\<close> and
  \<^verbatim>\<open>strftime('%Y-%m-%d %H:%M')\<close> only; a value of the type is modelled by these two texts.
  The column \<open>message_date\<close> holds the ISO text, and SQLite compares and sorts it as text,
  byte by byte: this is the order \<open>\<le>\<close> on \<^typ>\<open>string\<close>.
\<close>

datatype error = OperationalError

datatype fault = ConnectFails | ExecuteFails | CommitFails

record datetime =
  isoformat :: string
  strftime :: string

record message =
  msg_chat_id :: int
  msg_chat_title :: "string option"
  msg_id :: int
  msg_sender_id :: "int option"
  msg_date :: datetime
  msg_message :: "string option"

record row =
  chat_id :: int
  chat_title :: "string option"
  message_id :: int
  sender_id :: "int option"
  message_date :: string
  row_text :: "string option"

record database =
  fault :: "fault option"
  messages :: "row list option"

definition sqlite3_connect :: "database \<Rightarrow> error + unit" where
  "sqlite3_connect db = (if fault db = Some ConnectFails then Inl OperationalError else Inr ())"

definition commit :: "database \<Rightarrow> error + unit" where
  "commit db = (if fault db = Some CommitFails then Inl OperationalError else Inr ())"

definition init_db :: "database \<Rightarrow> error + database" where
  \<comment> \<open>\<^verbatim>\<open>CREATE TABLE IF NOT EXISTS\<close>, \<^verbatim>\<open>CREATE UNIQUE INDEX IF NOT EXISTS\<close>\<close>
  "init_db db =
     (case sqlite3_connect db of Inl e \<Rightarrow> Inl e
      | Inr _ \<Rightarrow>
          if fault db = Some ExecuteFails then Inl OperationalError
          else
            (case commit db of Inl e \<Rightarrow> Inl e
             | Inr _ \<Rightarrow>
                 Inr (db\<lparr>messages := Some (case messages db of None \<Rightarrow> [] | Some tbl \<Rightarrow> tbl)\<rparr>)))"

definition same_key :: "row \<Rightarrow> row \<Rightarrow> bool" where
  "same_key r r' \<longleftrightarrow> chat_id r = chat_id r' \<and> message_id r = message_id r'"

definition insert_or_ignore :: "row \<Rightarrow> database \<Rightarrow> error + row list" where
  \<comment> \<open>\<^verbatim>\<open>INSERT OR IGNORE INTO messages\<close>: a row that would break the unique index is skipped\<close>
  "insert_or_ignore r db =
     (if fault db = Some ExecuteFails then Inl OperationalError
      else
        (case messages db of
           None \<Rightarrow> Inl OperationalError
         | Some tbl \<Rightarrow> Inr (if list_ex (same_key r) tbl then tbl else tbl @ [r])))"

definition row_of :: "message \<Rightarrow> row" where
  "row_of message =
     \<lparr>chat_id = msg_chat_id message, chat_title = msg_chat_title message,
      message_id = msg_id message, sender_id = msg_sender_id message,
      message_date = isoformat (msg_date message), row_text = msg_message message\<rparr>"

definition store_message :: "message \<Rightarrow> database \<Rightarrow> error + unit \<times> database" where
  \<comment> \<open>the Python function returns \<^verbatim>\<open>None\<close> on every path: the \<^typ>\<open>unit\<close>\<close>
  "store_message message db =
     (if msg_message message = None \<or> msg_message message = Some [] then Inr ((), db)
      else
        (case sqlite3_connect db of Inl e \<Rightarrow> Inl e
         | Inr _ \<Rightarrow>
             (case insert_or_ignore (row_of message) db of Inl e \<Rightarrow> Inl e
              | Inr tbl \<Rightarrow>
                  (case commit db of Inl e \<Rightarrow> Inl e
                   | Inr _ \<Rightarrow> Inr ((), db\<lparr>messages := Some tbl\<rparr>)))))"

type_synonym result_row = "string option \<times> string \<times> string option"

definition select_since :: "string \<Rightarrow> database \<Rightarrow> error + result_row list" where
  \<comment> \<open>\<^verbatim>\<open>SELECT chat_title, message_date, text FROM messages WHERE message_date >= ?
       ORDER BY message_date ASC\<close>; rows of equal date stay in insertion order\<close>
  "select_since since_text db =
     (if fault db = Some ExecuteFails then Inl OperationalError
      else
        (case messages db of
           None \<Rightarrow> Inl OperationalError
         | Some tbl \<Rightarrow>
             Inr (map (\<lambda>r. (chat_title r, message_date r, row_text r))
                    (sort_key message_date (filter (\<lambda>r. since_text \<le> message_date r) tbl)))))"

definition load_messages_since :: "datetime \<Rightarrow> database \<Rightarrow> error + result_row list" where
  "load_messages_since since db =
     (case sqlite3_connect db of Inl e \<Rightarrow> Inl e
      | Inr _ \<Rightarrow> select_since (isoformat since) db)"

definition unique_keys :: "row list \<Rightarrow> bool" where
  \<comment> \<open>the invariant that the unique index keeps\<close>
  "unique_keys tbl \<longleftrightarrow> distinct (map (\<lambda>r. (chat_id r, message_id r)) tbl)"

section \<open>The digest\<close>

text \<open>
  \<open>ticker_counts\<close> is a \<^verbatim>\<open>Counter\<close>: a dictionary, which keeps its keys in the order of their
  first insertion; it is an association list in that order. \<open>ticker_samples\<close> is a
  \<^verbatim>\<open>defaultdict(list)\<close>, read by key only: a function whose default is the empty list.
  \<^verbatim>\<open>most_common(n)\<close> is \<^verbatim>\<open>sorted(items, key=count, reverse=True)[:n]\<close>, and Python's sort
  is stable also when reversed. \<^verbatim>\<open>datetime.now()\<close> is the argument \<open>now\<close>.
\<close>

type_synonym counter = "(string \<times> nat) list"

type_synonym samples = "string \<Rightarrow> string list"

fun counter_incr :: "counter \<Rightarrow> string \<Rightarrow> counter" where
  "counter_incr [] k = [(k, 1)]"
| "counter_incr ((k', c) # kcs) k =
     (if k' = k then (k', c + 1) # kcs else (k', c) # counter_incr kcs k)"

definition most_common :: "nat \<Rightarrow> counter \<Rightarrow> counter" where
  "most_common n counts = take n (sort_key (\<lambda>(ticker, count). - int count) counts)"

definition or_empty :: "string option \<Rightarrow> string" where
  \<comment> \<open>\<^verbatim>\<open>text or ""\<close>\<close>
  "or_empty text = (case text of None \<Rightarrow> [] | Some t \<Rightarrow> t)"

definition strip :: "string \<Rightarrow> string" where
  "strip s = rev (dropWhile is_space (rev (dropWhile is_space s)))"

definition newline :: char where
  "newline = CHR 0x0A"

definition replace_newline :: "string \<Rightarrow> string" where
  \<comment> \<open>\<^verbatim>\<open>.replace("\n", " ")\<close>\<close>
  "replace_newline s = map (\<lambda>c. if c = newline then CHR '' '' else c) s"

definition preview_of :: "string option \<Rightarrow> string" where
  "preview_of text = replace_newline (strip (or_empty text))"

definition count_ticker :: "string option \<Rightarrow> counter \<times> samples \<Rightarrow> string \<Rightarrow> counter \<times> samples" where
  "count_ticker text st ticker =
     (let ticker_counts = counter_incr (fst st) ticker; ticker_samples = snd st
      in if length (ticker_samples ticker) < 3
         then
           let preview = preview_of text
           in if preview \<noteq> []
              then (ticker_counts, ticker_samples(ticker := ticker_samples ticker @ [take 160 preview]))
              else (ticker_counts, ticker_samples)
         else (ticker_counts, ticker_samples))"

fun count_tickers :: "string option \<Rightarrow> string list \<Rightarrow> counter \<times> samples \<Rightarrow> counter \<times> samples" where
  "count_tickers text [] st = st"
| "count_tickers text (ticker # tickers) st = count_tickers text tickers (count_ticker text st ticker)"

fun count_rows :: "result_row list \<Rightarrow> counter \<times> samples \<Rightarrow> counter \<times> samples" where
  "count_rows [] st = st"
| "count_rows ((title, date, text) # rows) st =
     count_rows rows (count_tickers text (extract_tickers (or_empty text)) st)"

definition digit_char :: "nat \<Rightarrow> char" where
  "digit_char d = ''0123456789'' ! (d mod 10)"

function str_nat :: "nat \<Rightarrow> string" where
  "str_nat n = (if n < 10 then [digit_char n] else str_nat (n div 10) @ [digit_char (n mod 10)])"
  by pat_completeness auto
termination
  by (relation "measure id") auto

declare str_nat.simps [simp del]

fun join_lines :: "string list \<Rightarrow> string" where
  "join_lines [] = []"
| "join_lines [l] = l"
| "join_lines (l # l' # ls) = l @ [newline] @ join_lines (l' # ls)"

definition em_dash :: string where
  \<comment> \<open>U+2014 in UTF-8\<close>
  "em_dash = [CHR 0xE2, CHR 0x80, CHR 0x94]"

definition bullet :: string where
  \<comment> \<open>U+2022 in UTF-8\<close>
  "bullet = [CHR 0xE2, CHR 0x80, CHR 0xA2]"

definition ticker_lines :: "samples \<Rightarrow> string \<times> nat \<Rightarrow> string list" where
  \<comment> \<open>the three \<^verbatim>\<open>lines.append\<close> of one round of the rendering loop\<close>
  "ticker_lines ticker_samples tc =
     [''$'' @ fst tc @ '' '' @ em_dash @ '' '' @ str_nat (snd tc) @ '' mentions''] @
     map (\<lambda>sample. ''  '' @ bullet @ '' '' @ sample) (ticker_samples (fst tc)) @
     [[]]"

definition digest_lines :: "datetime \<Rightarrow> datetime \<Rightarrow> counter \<Rightarrow> samples \<Rightarrow> string list" where
  "digest_lines since now ticker_counts ticker_samples =
     [''Daily Telegram Ticker Digest'',
      ''Window: '' @ strftime since @ '' - '' @ strftime now,
      []] @
     concat (map (ticker_lines ticker_samples) (most_common 15 ticker_counts))"

definition no_mentions :: string where
  "no_mentions =
     ''Daily Telegram Ticker Digest'' @ [newline, newline] @
     ''No ticker mentions found in the last 24 hours.''"

definition build_digest :: "datetime \<Rightarrow> datetime \<Rightarrow> database \<Rightarrow> error + string" where
  "build_digest since now db =
     (case load_messages_since since db of Inl e \<Rightarrow> Inl e
      | Inr rows \<Rightarrow>
          let st = count_rows rows ([], \<lambda>ticker. []);
              ticker_counts = fst st; ticker_samples = snd st
          in if ticker_counts = [] then Inr no_mentions
             else Inr (strip (join_lines (digest_lines since now ticker_counts ticker_samples))))"


subsection \<open>Words for the claims about the digest\<close>

text \<open>
  \<open>mentions rows\<close> are the symbols in the order in which the loops of \<open>build_digest\<close> meet
  them. \<open>first_seen\<close> keeps the first occurrence of every element. \<open>occurrence_previews\<close>
  lists, for one symbol, the preview of the row of each of its mentions, in that order.
\<close>

definition mentions :: "result_row list \<Rightarrow> string list" where
  "mentions rows = concat (map (\<lambda>row. extract_tickers (or_empty (snd (snd row)))) rows)"

fun first_seen :: "'a list \<Rightarrow> 'a list" where
  "first_seen [] = []"
| "first_seen (x # xs) = x # filter (\<lambda>y. y \<noteq> x) (first_seen xs)"

definition occurrence_previews :: "string \<Rightarrow> result_row list \<Rightarrow> string list" where
  "occurrence_previews ticker rows =
     concat (map (\<lambda>row. map (\<lambda>t. take 160 (preview_of (snd (snd row))))
                          (filter (\<lambda>t. t = ticker) (extract_tickers (or_empty (snd (snd row))))))
               rows)"

section \<open>Example data\<close>

text \<open>
  A message, a second delivery under the same chat and message number with every other
  field changed, and a message without text.
\<close>

definition empty_db :: database where
  "empty_db = \<lparr>fault = None, messages = Some []\<rparr>"

definition unreachable_db :: database where
  "unreachable_db = \<lparr>fault = Some ConnectFails, messages = Some []\<rparr>"

definition first_delivery :: message where
  "first_delivery =
     \<lparr>msg_chat_id = - 1001, msg_chat_title = Some ''Alpha calls'', msg_id = 7,
      msg_sender_id = Some 42,
      msg_date = \<lparr>isoformat = ''2024-05-01T10:00:00+00:00'', strftime = ''2024-05-01 10:00''\<rparr>,
      msg_message = Some ''BTC breaks out''\<rparr>"

definition second_delivery :: message where
  "second_delivery =
     \<lparr>msg_chat_id = - 1001, msg_chat_title = None, msg_id = 7,
      msg_sender_id = None,
      msg_date = \<lparr>isoformat = ''2024-05-01T10:05:00+00:00'', strftime = ''2024-05-01 10:05''\<rparr>,
      msg_message = Some ''BTC breaks out (edited)''\<rparr>"

definition photo_only :: message where
  "photo_only =
     \<lparr>msg_chat_id = - 1001, msg_chat_title = Some ''Alpha calls'', msg_id = 8,
      msg_sender_id = Some 42,
      msg_date = \<lparr>isoformat = ''2024-05-01T10:10:00+00:00'', strftime = ''2024-05-01 10:10''\<rparr>,
      msg_message = None\<rparr>"

definition one_row_db :: database where
  "one_row_db = \<lparr>fault = None, messages = Some [row_of first_delivery]\<rparr>"

text \<open>
  A table of five messages, the window that starts after the first of them, the rows of
  that window, and a table whose only message names one symbol twice.
\<close>

definition ranking_db :: database where
  "ranking_db =
     \<lparr>fault = None,
      messages = Some
        [\<lparr>chat_id = - 1001, chat_title = Some ''Alpha calls'', message_id = 1, sender_id = Some 42,
          message_date = ''2024-05-01T08:00:00+00:00'', row_text = Some ''$BTC''\<rparr>,
         \<lparr>chat_id = - 1001, chat_title = Some ''Alpha calls'', message_id = 2, sender_id = Some 42,
          message_date = ''2024-05-01T10:00:00+00:00'', row_text = Some ''$ETH, $BTC''\<rparr>,
         \<lparr>chat_id = - 1001, chat_title = Some ''Alpha calls'', message_id = 3, sender_id = Some 43,
          message_date = ''2024-05-01T11:00:00+00:00'', row_text = Some ''#btc > #eth''\<rparr>,
         \<lparr>chat_id = - 1002, chat_title = None, message_id = 1, sender_id = None,
          message_date = ''2024-05-01T12:00:00+00:00'', row_text = Some ''BTC BTC BTC''\<rparr>,
         \<lparr>chat_id = - 1002, chat_title = None, message_id = 2, sender_id = None,
          message_date = ''2024-05-01T13:00:00+00:00'', row_text = Some ''eth?''\<rparr>]\<rparr>"

definition window_start :: datetime where
  "window_start = \<lparr>isoformat = ''2024-05-01T09:00:00'', strftime = ''2024-05-01 09:00''\<rparr>"

definition window_end :: datetime where
  "window_end = \<lparr>isoformat = ''2024-05-02T09:00:00'', strftime = ''2024-05-02 09:00''\<rparr>"

definition ranking_window :: "result_row list" where
  "ranking_window =
     [(Some ''Alpha calls'', ''2024-05-01T10:00:00+00:00'', Some ''$ETH, $BTC''),
      (Some ''Alpha calls'', ''2024-05-01T11:00:00+00:00'', Some ''#btc > #eth''),
      (None, ''2024-05-01T12:00:00+00:00'', Some ''BTC BTC BTC''),
      (None, ''2024-05-01T13:00:00+00:00'', Some ''eth?'')]"

definition double_mention_db :: database where
  "double_mention_db =
     \<lparr>fault = None,
      messages = Some
        [\<lparr>chat_id = - 1001, chat_title = Some ''Alpha calls'', message_id = 9, sender_id = Some 42,
          message_date = ''2024-05-01T10:00:00+00:00'', row_text = Some ''BTC or not BTC''\<rparr>]\<rparr>"

section \<open>What the regular expression matches\<close>

lemma upper_is_word: "is_upper c \<Longrightarrow> is_word c"
  by (simp add: is_word_def)

lemma rmatch_AZ:
  "rmatch (Range CHR ''A'' CHR ''Z'') (p, s, g) =
     (case s of [] \<Rightarrow> [] | x # xs \<Rightarrow> if is_upper x then [(Some x, xs, g)] else [])"
  by (cases s) (simp_all add: is_upper_def)

lemma rep_AZ_boundary:
  "(m = 0 \<longrightarrow> word_before p) \<Longrightarrow>
   concat (map (rmatch WordB) (rep (Range CHR ''A'' CHR ''Z'') m n (p, s, g))) =
     (let w = takeWhile is_upper s; k = length w;
          p' = (if k = 0 then p else Some (last w))
      in if m \<le> k \<and> k \<le> n \<and> at_boundary p' (drop k s) then [(p', drop k s, g)] else [])"
proof (induction n arbitrary: m p s g)
  case 0
  then show ?case
    by (cases s) (auto simp: Let_def at_boundary_def word_after_def upper_is_word)
next
  case (Suc n)
  show ?case
  proof (cases s)
    case Nil
    then show ?thesis by (simp add: Let_def)
  next
    case (Cons x xs)
    show ?thesis
    proof (cases "is_upper x")
      case False
      with Cons show ?thesis by (simp add: rmatch_AZ Let_def del: rmatch.simps(2))
    next
      case True
      have wb: "word_before (Some x)" using True by (simp add: word_before_def upper_is_word)
      have ih: "concat (map (rmatch WordB) (rep (Range CHR ''A'' CHR ''Z'') (m - 1) n (Some x, xs, g))) =
        (let w = takeWhile is_upper xs; k = length w;
          p' = (if k = 0 then Some x else Some (last w))
         in if m - 1 \<le> k \<and> k \<le> n \<and> at_boundary p' (drop k xs) then [(p', drop k xs, g)] else [])"
        by (rule Suc.IH) (simp add: wb)
      have stop: "m = 0 \<Longrightarrow> rmatch WordB (p, s, g) = []"
        using Suc.prems True Cons by (simp add: at_boundary_def word_after_def upper_is_word)
      show ?thesis
        using True Cons ih stop
        by (cases "m = 0") (auto simp add: rmatch_AZ Let_def simp del: rmatch.simps(2) rmatch.simps(7))
    qed
  qed
qed


lemma wordB_group_commute:
  "concat (map (rmatch WordB) (map (\<lambda>(p', s', g'). (p', s', Some (F s'))) xs)) =
   map (\<lambda>(p', s', g'). (p', s', Some (F s'))) (concat (map (rmatch WordB) xs))"
  by (induction xs) auto

lemma length_takeWhile_drop:
  "length s - (length s - length (takeWhile P s)) = length (takeWhile P s)"
  using length_takeWhile_le [of P s] by simp

lemma takeWhile_take_length: "take (length (takeWhile P s)) s = takeWhile P s"
  by (induction s) auto

lemma last_takeWhile: "takeWhile P s \<noteq> [] \<Longrightarrow> P (last (takeWhile P s))"
  by (metis last_in_set set_takeWhileD)

lemma rmatch_group_boundary:
  "rmatch (Seq (Group (Rep (Range CHR ''A'' CHR ''Z'') 2 6)) WordB) (p, s, g) =
     (if token_at s
      then [(Some (last (takeWhile is_upper s)), drop (length (takeWhile is_upper s)) s,
             Some (takeWhile is_upper s))]
      else [])"
proof -
  let ?w = "takeWhile is_upper s"
  have b: "?w \<noteq> [] \<Longrightarrow> at_boundary (Some (last ?w)) r \<longleftrightarrow> \<not> word_after r" for r
    using last_takeWhile [of is_upper s]
    by (simp add: at_boundary_def word_before_def upper_is_word)
  have "rmatch (Seq (Group (Rep (Range CHR ''A'' CHR ''Z'') 2 6)) WordB) (p, s, g) =
    map (\<lambda>(p', s', g'). (p', s', Some (take (length s - length s') s)))
      (concat (map (rmatch WordB) (rep (Range CHR ''A'' CHR ''Z'') 2 6 (p, s, g))))"
    by (simp only: rmatch.simps wordB_group_commute)
  also have "\<dots> = (if token_at s
      then [(Some (last ?w), drop (length ?w) s, Some ?w)] else [])"
    using b
    by (auto simp add: rep_AZ_boundary Let_def token_at_def length_takeWhile_drop
        takeWhile_take_length)
  finally show ?thesis .
qed


lemma token_at_hd: "token_at s \<Longrightarrow> word_after s"
  by (cases s) (auto simp: token_at_def word_after_def upper_is_word split: if_splits)

lemma rmatch_ticker_core:
  "rmatch (Seq WordB (Seq (Group (Rep (Range CHR ''A'' CHR ''Z'') 2 6)) WordB)) (p, s, g) =
     (if \<not> word_before p \<and> token_at s
      then [(Some (last (takeWhile is_upper s)), drop (length (takeWhile is_upper s)) s,
             Some (takeWhile is_upper s))]
      else [])"
proof -
  let ?core = "Seq (Group (Rep (Range CHR ''A'' CHR ''Z'') 2 6)) WordB"
  have "rmatch (Seq WordB ?core) (p, s, g) =
     concat (map (rmatch ?core) (rmatch WordB (p, s, g)))"
    by (rule rmatch.simps(4))
  also have "\<dots> = (if at_boundary p s then rmatch ?core (p, s, g) else [])"
    by (simp only: rmatch.simps(7) list.map concat.simps append_Nil2 if_distrib [of "map _"]
       if_distrib [of concat] cong: if_cong)
  finally show ?thesis
    using token_at_hd [of s]
    by (simp only: rmatch_group_boundary at_boundary_def split: if_splits) auto
qed


lemma rmatch_marker:
  "rmatch (Opt (Alt (Lit CHR ''$'') (Lit CHR ''#''))) (p, s, g) =
     (case s of [] \<Rightarrow> [(p, s, g)]
      | c # cs \<Rightarrow> (if c = CHR ''$'' \<or> c = CHR ''#'' then [(Some c, cs, g)] else []) @ [(p, s, g)])"
  by (cases s) (simp_all only: rmatch.simps list.case, auto)

lemma marker_not_word: "c = CHR ''$'' \<or> c = CHR ''#'' \<Longrightarrow> \<not> word_before (Some c)"
  by (auto simp: word_before_def is_word_def is_upper_def is_lower_def is_digit_def)

lemma token_at_Nil: "\<not> token_at []"
  by (simp add: token_at_def)

lemma rmatch_TICKER_REGEX_Nil: "rmatch TICKER_REGEX (p, [], None) = []"
proof -
  let ?core = "Seq WordB (Seq (Group (Rep (Range CHR ''A'' CHR ''Z'') 2 6)) WordB)"
  have "rmatch TICKER_REGEX (p, [], None) =
    concat (map (rmatch ?core) (rmatch (Opt (Alt (Lit CHR ''$'') (Lit CHR ''#''))) (p, [], None)))"
    unfolding TICKER_REGEX_def by (rule rmatch.simps(4))
  then show ?thesis
    by (simp only: rmatch_marker rmatch_ticker_core token_at_Nil list.case list.map concat.simps
        simp_thms if_False append_Nil)
qed

lemma rmatch_TICKER_REGEX_Cons:
  "rmatch TICKER_REGEX (p, c # cs, None) =
         (if (c = CHR ''$'' \<or> c = CHR ''#'') \<and> token_at cs
          then [(Some (last (takeWhile is_upper cs)), drop (length (takeWhile is_upper cs)) cs,
                 Some (takeWhile is_upper cs))]
          else []) @
         (if \<not> word_before p \<and> token_at (c # cs)
          then [(Some (last (takeWhile is_upper (c # cs))),
                 drop (length (takeWhile is_upper (c # cs))) (c # cs),
                 Some (takeWhile is_upper (c # cs)))]
          else [])"
proof -
  let ?core = "Seq WordB (Seq (Group (Rep (Range CHR ''A'' CHR ''Z'') 2 6)) WordB)"
  have "rmatch TICKER_REGEX (p, c # cs, None) =
    concat (map (rmatch ?core) (rmatch (Opt (Alt (Lit CHR ''$'') (Lit CHR ''#''))) (p, c # cs, None)))"
    unfolding TICKER_REGEX_def by (rule rmatch.simps(4))
  also have "\<dots> = (if c = CHR ''$'' \<or> c = CHR ''#'' then rmatch ?core (Some c, cs, None) else [])
       @ rmatch ?core (p, c # cs, None)"
    by (simp only: rmatch_marker list.case list.map concat.simps append_Nil append_Nil2
        append_Cons split: if_splits) simp
  finally show ?thesis
    using marker_not_word [of c]
    by (simp only: rmatch_ticker_core split: if_splits) auto
qed


lemma takeWhile_word_upper:
  "\<not> word_after (drop (length (takeWhile is_upper s)) s) \<Longrightarrow>
   takeWhile is_word s = takeWhile is_upper s"
  by (induction s) (auto simp: word_after_def upper_is_word split: if_splits)

lemma takeWhile_upper_word:
  "list_all is_upper (takeWhile is_word s) \<Longrightarrow> takeWhile is_upper s = takeWhile is_word s"
  by (induction s) (auto simp: upper_is_word)

lemma not_word_after_drop_takeWhile:
  "\<not> word_after (drop (length (takeWhile is_word s)) s)"
  by (induction s) (auto simp: word_after_def)

lemma dropWhile_drop_length: "dropWhile P s = drop (length (takeWhile P s)) s"
  by (induction s) auto

lemma token_at_valid:
  assumes "token_at s"
  shows "takeWhile is_word s = takeWhile is_upper s"
    and "valid_word (takeWhile is_upper s)"
    and "dropWhile is_word s = drop (length (takeWhile is_upper s)) s"
proof -
  show 1: "takeWhile is_word s = takeWhile is_upper s"
    using assms by (simp add: token_at_def takeWhile_word_upper)
  show "valid_word (takeWhile is_upper s)"
    using assms by (auto simp: token_at_def valid_word_def list_all_iff dest: set_takeWhileD)
  show "dropWhile is_word s = drop (length (takeWhile is_upper s)) s"
    using 1 by (simp add: dropWhile_drop_length)
qed

lemma valid_token_at: "valid_word (takeWhile is_word s) \<Longrightarrow> token_at s"
  using not_word_after_drop_takeWhile [of s]
  by (simp add: valid_word_def token_at_def takeWhile_upper_word)

lemma finditer_Nil: "finditer TICKER_REGEX p [] = []"
  by (subst finditer.simps) (simp only: rmatch_TICKER_REGEX_Nil list.case)

lemma finditer_no_match:
  "rmatch r (p, c # cs, None) = [] \<Longrightarrow> finditer r p (c # cs) = finditer r (Some c) cs"
  by (subst finditer.simps) simp

lemma finditer_match:
  "rmatch r (p, s, None) = (p', s', g) # ms \<Longrightarrow> length s' < length s \<Longrightarrow>
   finditer r p s = (p', s', g) # finditer r p' s'"
  by (subst finditer.simps) simp

lemma candidates_of_Nil: "candidates_of [] = []"
  by (simp add: candidates_of_def)

lemma candidates_of_skip: "\<not> is_word c \<Longrightarrow> candidates_of (c # cs) = candidates_of cs"
  by (simp add: candidates_of_def)

lemma candidates_of_word:
  "is_word c \<Longrightarrow> candidates_of (c # cs) =
     (if valid_word (takeWhile is_word (c # cs)) then [takeWhile is_word (c # cs)] else []) @
     candidates_of (dropWhile is_word (c # cs))"
  by (simp add: candidates_of_def)

lemma candidates_of_token:
  assumes "token_at s"
  shows "candidates_of s =
     takeWhile is_upper s # candidates_of (drop (length (takeWhile is_upper s)) s)"
proof -
  obtain c cs where s: "s = c # cs" and c: "is_word c"
    using token_at_hd [OF assms] by (cases s) (auto simp: word_after_def)
  show ?thesis
    using candidates_of_word [OF c, of cs] token_at_valid [OF assms] s by simp
qed

lemma dropWhile_not_word_after: "\<not> word_after s \<Longrightarrow> dropWhile is_word s = s"
  by (cases s) (auto simp: word_after_def)

lemma token_at_length: "token_at s \<Longrightarrow> length (drop (length (takeWhile is_upper s)) s) < length s"
  by (cases s) (auto simp: token_at_def split: if_splits)

lemma finditer_TICKER_REGEX:
  "concat (map group1 (finditer TICKER_REGEX p s)) =
     (if word_before p then candidates_of (dropWhile is_word s) else candidates_of s)"
proof (induction s arbitrary: p rule: length_induct)
  case (1 s)
  note IH = "1.IH" [rule_format]
  show ?case
  proof (cases s)
    case Nil
    then show ?thesis by (simp add: finditer_Nil candidates_of_Nil)
  next
    case (Cons c cs)
    let ?M = "(c = CHR ''$'' \<or> c = CHR ''#'') \<and> token_at cs"
    let ?N = "\<not> word_before p \<and> token_at s"
    have after_token: "concat (map group1 (finditer TICKER_REGEX (Some (last (takeWhile is_upper t)))
            (drop (length (takeWhile is_upper t)) t))) =
          candidates_of (drop (length (takeWhile is_upper t)) t)"
      if t: "token_at t" and len: "length t \<le> length s" for t
    proof -
      let ?w = "takeWhile is_upper t"
      have "?w \<noteq> []" using t by (auto simp: token_at_def)
      then have wb: "word_before (Some (last ?w))"
        using last_takeWhile [of is_upper t] by (simp add: word_before_def upper_is_word)
      have nwa: "\<not> word_after (drop (length ?w) t)" using t by (simp add: token_at_def)
      have "length (drop (length ?w) t) < length s"
        using token_at_length [OF t] len by simp
      from IH [OF this, of "Some (last ?w)"] wb nwa show ?thesis
        by (simp add: dropWhile_not_word_after)
    qed
    show ?thesis
    proof (cases ?M)
      case True
      let ?w = "takeWhile is_upper cs"
      have nw: "\<not> is_word c" using True marker_not_word [of c] by (simp add: word_before_def)
      obtain ms where m: "rmatch TICKER_REGEX (p, c # cs, None) =
          (Some (last ?w), drop (length ?w) cs, Some ?w) # ms"
        using True by (simp add: rmatch_TICKER_REGEX_Cons)
      have "finditer TICKER_REGEX p s =
          (Some (last ?w), drop (length ?w) cs, Some ?w) #
          finditer TICKER_REGEX (Some (last ?w)) (drop (length ?w) cs)"
        unfolding Cons by (rule finditer_match [OF m]) simp
      then have "concat (map group1 (finditer TICKER_REGEX p s)) =
          ?w # candidates_of (drop (length ?w) cs)"
        using after_token [of cs] True Cons by (simp add: group1_def)
      also have "\<dots> = candidates_of cs"
        using candidates_of_token [of cs] True by simp
      finally show ?thesis
        using nw Cons by (simp add: candidates_of_skip)
    next
      case notM: False
      show ?thesis
      proof (cases ?N)
        case True
        let ?w = "takeWhile is_upper s"
        have m: "rmatch TICKER_REGEX (p, s, None) =
            (Some (last ?w), drop (length ?w) s, Some ?w) # []"
          using True notM unfolding Cons by (simp only: rmatch_TICKER_REGEX_Cons) simp
        have "finditer TICKER_REGEX p s =
            (Some (last ?w), drop (length ?w) s, Some ?w) #
            finditer TICKER_REGEX (Some (last ?w)) (drop (length ?w) s)"
          by (rule finditer_match [OF m]) (use True token_at_length in blast)
        then have "concat (map group1 (finditer TICKER_REGEX p s)) =
            ?w # candidates_of (drop (length ?w) s)"
          using after_token [of s] True by (simp add: group1_def)
        also have "\<dots> = candidates_of s"
          using candidates_of_token [of s] True by simp
        finally show ?thesis using True by simp
      next
        case notN: False
        have "rmatch TICKER_REGEX (p, c # cs, None) = []"
          using notM notN unfolding Cons by (simp only: rmatch_TICKER_REGEX_Cons) simp
        then have "finditer TICKER_REGEX p s = finditer TICKER_REGEX (Some c) cs"
          unfolding Cons by (rule finditer_no_match)
        then have step: "concat (map group1 (finditer TICKER_REGEX p s)) =
            (if is_word c then candidates_of (dropWhile is_word cs) else candidates_of cs)"
          using IH [of cs "Some c"] Cons by (simp add: word_before_def)
        show ?thesis
        proof (cases "is_word c")
          case False
          then show ?thesis using step Cons by (simp add: candidates_of_skip)
        next
          case True
          have "\<not> word_before p \<Longrightarrow> \<not> valid_word (takeWhile is_word (c # cs))"
            using notN valid_token_at [of s] Cons by auto
          then show ?thesis
            using step True Cons candidates_of_word [OF True, of cs] by auto
        qed
      qed
    qed
  qed
qed


lemma rmatch_TICKER_REGEX_group:
  "m \<in> set (rmatch TICKER_REGEX (p, s, None)) \<Longrightarrow> snd (snd m) \<noteq> None"
  by (cases s) (auto simp: rmatch_TICKER_REGEX_Nil rmatch_TICKER_REGEX_Cons split: if_splits)

lemma finditer_group_participates:
  "m \<in> set (finditer TICKER_REGEX p s) \<Longrightarrow> snd (snd m) \<noteq> None"
proof (induction s arbitrary: p rule: length_induct)
  case (1 s)
  note IH = "1.IH" [rule_format]
  show ?case
  proof (cases "rmatch TICKER_REGEX (p, s, None)")
    case Nil
    show ?thesis
    proof (cases s)
      case Nil
      with "1.prems" show ?thesis by (simp add: finditer_Nil)
    next
      case (Cons c cs)
      with Nil "1.prems" have "m \<in> set (finditer TICKER_REGEX (Some c) cs)"
        by (simp add: finditer_no_match)
      with IH [of cs "Some c"] Cons show ?thesis by simp
    qed
  next
    case (Cons st ms)
    obtain p' s' g where st: "st = (p', s', g)" by (cases st)
    have g: "g \<noteq> None"
      using rmatch_TICKER_REGEX_group [of st p s] Cons st by simp
    have fi: "finditer TICKER_REGEX p s = (p', s', g) #
          (if length s' < length s then finditer TICKER_REGEX p' s'
           else (case s of [] \<Rightarrow> [] | c # cs \<Rightarrow> finditer TICKER_REGEX (Some c) cs))"
      by (subst finditer.simps) (simp add: Cons st)
    show ?thesis
    proof (cases "m = (p', s', g)")
      case True
      with g show ?thesis by simp
    next
      case False
      with "1.prems" fi have m: "m \<in> set (if length s' < length s then finditer TICKER_REGEX p' s'
           else (case s of [] \<Rightarrow> [] | c # cs \<Rightarrow> finditer TICKER_REGEX (Some c) cs))"
        by simp
      show ?thesis
      proof (cases "length s' < length s")
        case True
        with m IH [of s' p'] show ?thesis by simp
      next
        case False
        with m show ?thesis
          using IH by (cases s) auto
      qed
    qed
  qed
qed

lemma concat_group1_finditer:
  "concat (map group1 (finditer TICKER_REGEX None s)) = candidates_of s"
  by (simp add: finditer_TICKER_REGEX word_before_def)

lemma extract_tickers_eq:
  "extract_tickers text = filter (\<lambda>w. w \<notin> set STOPWORDS) (candidates_of (upper text))"
  by (simp add: extract_tickers_def concat_group1_finditer candidates_of_def upper_def)

section \<open>Claims about the symbol extractor\<close>

text \<open>
  C3, as the specification states it: \<open>extract\<close> applied to
  \<^verbatim>\<open>Buy $BTC and $ETH now, $BTC again\<close> returns BTC, ETH, BTC. It does not: the text is
  uppercased before it is matched, so \<open>BUY\<close>, \<open>NOW\<close> and \<open>AGAIN\<close> are words of 2 to 6
  capital letters too, and none of them is a stopword.
\<close>

theorem C3_extract_example_refuted:
  "extract_tickers ''Buy $BTC and $ETH now, $BTC again'' \<noteq> [''BTC'', ''ETH'', ''BTC'']"
  by code_simp

text \<open>
  C3, amended: on that input \<open>extract\<close> returns BUY, BTC, ETH, NOW, BTC, AGAIN, in the
  order of occurrence and with the duplicate kept; of the seven words of the text only
  \<open>AND\<close> is dropped as a stopword.
\<close>

theorem C3_extract_example:
  "extract_tickers ''Buy $BTC and $ETH now, $BTC again'' =
     [''BUY'', ''BTC'', ''ETH'', ''NOW'', ''BTC'', ''AGAIN'']"
  by code_simp





section \<open>The store: helper facts\<close>

lemma unique_keys_append:
  "unique_keys tbl \<Longrightarrow> \<not> list_ex (same_key r) tbl \<Longrightarrow> unique_keys (tbl @ [r])"
  by (auto simp: unique_keys_def list_ex_iff same_key_def)

lemma store_message_cases:
  assumes "store_message m db = Inr ((), db')"
  shows "db' = db \<or>
    (\<exists>tbl. messages db = Some tbl \<and> \<not> list_ex (same_key (row_of m)) tbl \<and>
       db' = db\<lparr>messages := Some (tbl @ [row_of m])\<rparr>)"
proof (cases "msg_message m = None \<or> msg_message m = Some []")
  case True
  with assms show ?thesis by (simp add: store_message_def)
next
  case False
  with assms obtain tbl where tbl: "messages db = Some tbl"
    and db': "db' = db\<lparr>messages := Some (if list_ex (same_key (row_of m)) tbl then tbl else tbl @ [row_of m])\<rparr>"
    by (auto simp: store_message_def sqlite3_connect_def insert_or_ignore_def commit_def
        split: if_splits option.splits sum.splits)
  show ?thesis
  proof (cases "list_ex (same_key (row_of m)) tbl")
    case True
    with tbl db' have "db' = db" by simp
    then show ?thesis ..
  next
    case False
    with tbl db' show ?thesis by auto
  qed
qed

lemma store_message_unique:
  assumes "store_message m db = Inr ((), db')" "messages db = Some tbl" "unique_keys tbl"
  shows "\<exists>tbl'. messages db' = Some tbl' \<and> unique_keys tbl'"
  using store_message_cases [OF assms(1)] assms(2,3)
  by (auto simp: unique_keys_append)

lemma store_message_fresh:
  assumes "fault db = None" "messages db = Some tbl" "msg_message m = Some t" "t \<noteq> []"
  shows "store_message m db =
     Inr ((), db\<lparr>messages := Some (if list_ex (same_key (row_of m)) tbl then tbl else tbl @ [row_of m])\<rparr>)"
  using assms
  by (simp add: store_message_def sqlite3_connect_def insert_or_ignore_def commit_def)

lemma filter_same_key_unique:
  "unique_keys tbl \<Longrightarrow> r' \<in> set tbl \<Longrightarrow> same_key r r' \<Longrightarrow> filter (same_key r) tbl = [r']"
proof (induction tbl)
  case Nil
  then show ?case by simp
next
  case (Cons a tbl)
  show ?case
  proof (cases "r' = a")
    case True
    have "\<not> same_key r x" if "x \<in> set tbl" for x
      using Cons.prems(1,3) that True
      by (auto simp: unique_keys_def same_key_def image_iff)
    then have "filter (same_key r) tbl = []" by (simp add: filter_empty_conv)
    with True Cons.prems(3) show ?thesis by simp
  next
    case False
    then have in_tl: "r' \<in> set tbl" using Cons.prems(2) by simp
    have "\<not> same_key r a"
      using Cons.prems(1,3) in_tl
      by (auto simp: unique_keys_def same_key_def image_iff)
    moreover have "unique_keys tbl" using Cons.prems(1) by (simp add: unique_keys_def)
    ultimately show ?thesis using Cons.IH in_tl Cons.prems(3) by simp
  qed
qed

lemma load_messages_since_ok:
  assumes "fault db \<noteq> Some ConnectFails" "fault db \<noteq> Some ExecuteFails" "messages db = Some tbl"
  shows "load_messages_since since db =
     Inr (map (\<lambda>r. (chat_title r, message_date r, row_text r))
        (sort_key message_date (filter (\<lambda>r. isoformat since \<le> message_date r) tbl)))"
  using assms by (simp add: load_messages_since_def sqlite3_connect_def select_since_def)

lemma load_messages_since_Inr:
  assumes "load_messages_since since db = Inr rows"
  shows "\<exists>tbl. messages db = Some tbl \<and> fault db \<noteq> Some ConnectFails \<and> fault db \<noteq> Some ExecuteFails"
  using assms
  by (auto simp: load_messages_since_def sqlite3_connect_def select_since_def
      split: if_splits option.splits)

section \<open>Claims about the store\<close>

text \<open>
  C1, as the specification states it, has the second call report that the message was
  ignored. \<open>store_message\<close> reports nothing: it returns \<^verbatim>\<open>None\<close> on every path. The call
  that stores the row and the call that is ignored give the caller the same value. Nor
  is the stored row that of the first of the two calls in every state: when the key is in
  the table already, that call is ignored too and the row stays the one stored before.
\<close>

theorem C1_no_report:
  "store_message first_delivery empty_db = Inr ((), one_row_db) \<and>
   store_message second_delivery one_row_db = Inr ((), one_row_db) \<and>
   one_row_db \<noteq> empty_db \<and>
   messages one_row_db = Some [row_of first_delivery] \<and>
   row_of second_delivery \<noteq> row_of first_delivery"
  by (simp add: store_message_def sqlite3_connect_def insert_or_ignore_def commit_def
      empty_db_def one_row_db_def first_delivery_def second_delivery_def row_of_def same_key_def)

text \<open>
  C1, amended: in every state of the store that has unique keys, two calls of
  \<open>store_message\<close> with non-empty text and the same \<open>(chat_id, message_id)\<close>, whatever their
  other fields, leave exactly one row with that key: the row of the first call when the
  key was new, and otherwise the row that was stored already, the table being unchanged.
  The second call changes nothing and returns \<^verbatim>\<open>None\<close>, as every call does. Every call of
  \<open>store_message\<close> that returns keeps the keys unique.
\<close>

theorem C1_first_write_wins:
  assumes ok: "fault db = None" "messages db = Some tbl" "unique_keys tbl"
    and text1: "msg_message m1 = Some t1" "t1 \<noteq> []"
    and text2: "msg_message m2 = Some t2" "t2 \<noteq> []"
    and key: "msg_chat_id m2 = msg_chat_id m1" "msg_id m2 = msg_id m1"
  shows "\<exists>db1 tbl1 r.
           store_message m1 db = Inr ((), db1) \<and> messages db1 = Some tbl1 \<and>
           store_message m2 db1 = Inr ((), db1) \<and>
           filter (same_key (row_of m1)) tbl1 = [r] \<and>
           (if list_ex (same_key (row_of m1)) tbl then tbl1 = tbl else r = row_of m1) \<and>
           unique_keys tbl1 \<and>
           (\<forall>m d t d'. messages d = Some t \<and> unique_keys t \<and> store_message m d = Inr ((), d') \<longrightarrow>
              (\<exists>t'. messages d' = Some t' \<and> unique_keys t'))"
proof -
  let ?tbl1 = "if list_ex (same_key (row_of m1)) tbl then tbl else tbl @ [row_of m1]"
  let ?db1 = "db\<lparr>messages := Some ?tbl1\<rparr>"
  have 1: "store_message m1 db = Inr ((), ?db1)"
    by (rule store_message_fresh [OF ok(1,2) text1])
  have sk: "same_key (row_of m2) = same_key (row_of m1)"
    using key by (simp add: same_key_def row_of_def fun_eq_iff)
  have ex: "list_ex (same_key (row_of m1)) ?tbl1"
    by (simp add: list_ex_iff same_key_def)
  have "store_message m2 ?db1 =
      Inr ((), ?db1\<lparr>messages := Some (if list_ex (same_key (row_of m2)) ?tbl1 then ?tbl1
                                         else ?tbl1 @ [row_of m2])\<rparr>)"
    by (rule store_message_fresh [OF _ _ text2]) (simp_all add: ok(1))
  then have 2: "store_message m2 ?db1 = Inr ((), ?db1)"
    using ex by (simp only: sk if_True) simp
  have u: "unique_keys ?tbl1"
    using ok(3) by (simp add: unique_keys_append)
  obtain r where r: "r \<in> set ?tbl1" "same_key (row_of m1) r"
    using ex unfolding list_ex_iff by blast
  have 3: "filter (same_key (row_of m1)) ?tbl1 = [r]"
    by (rule filter_same_key_unique [OF u r])
  have 4: "\<not> list_ex (same_key (row_of m1)) tbl \<Longrightarrow> r = row_of m1"
    using r by (auto simp: list_ex_iff)
  have inv: "\<forall>m d t d'. messages d = Some t \<and> unique_keys t \<and> store_message m d = Inr ((), d') \<longrightarrow>
              (\<exists>t'. messages d' = Some t' \<and> unique_keys t')"
    using store_message_unique by blast
  have m: "messages ?db1 = Some ?tbl1" by simp
  show ?thesis
    apply (rule exI [of _ ?db1], rule exI [of _ ?tbl1], rule exI [of _ r])
    using 1 2 3 4 u inv m by auto
qed

theorem C1_first_write_wins_witness:
  "\<exists>db1 tbl1 r.
     store_message first_delivery empty_db = Inr ((), db1) \<and> messages db1 = Some tbl1 \<and>
     store_message second_delivery db1 = Inr ((), db1) \<and>
     filter (same_key (row_of first_delivery)) tbl1 = [r] \<and>
     (if list_ex (same_key (row_of first_delivery)) [] then tbl1 = [] else r = row_of first_delivery) \<and>
     unique_keys tbl1 \<and>
     (\<forall>m d t d'. messages d = Some t \<and> unique_keys t \<and> store_message m d = Inr ((), d') \<longrightarrow>
        (\<exists>t'. messages d' = Some t' \<and> unique_keys t'))"
  by (rule C1_first_write_wins [of empty_db "[]" first_delivery "''BTC breaks out''"
        second_delivery "''BTC breaks out (edited)''"])
     (simp_all add: empty_db_def first_delivery_def second_delivery_def unique_keys_def)



text \<open>
  C8, as the specification states it, has \<open>put\<close> fail whenever the store is unreachable.
  For a message without text \<open>store_message\<close> returns before it opens the store.
\<close>

theorem C8_silent_return:
  "store_message photo_only unreachable_db = Inr ((), unreachable_db) \<and>
   fault unreachable_db = Some ConnectFails"
  by (simp add: store_message_def photo_only_def unreachable_db_def)

text \<open>
  C8, amended: whenever the store cannot be opened or the query fails,
  \<open>load_messages_since\<close> raises the error to its caller; whenever the store cannot be
  opened or the insert or the commit fails, \<open>store_message\<close> raises it for every message
  with non-empty text. Neither returns a result then. For a message whose text is absent
  or empty, \<open>store_message\<close> returns normally without touching the store.
\<close>

theorem C8_errors_reach_the_caller:
  "(fault db = Some ConnectFails \<or> fault db = Some ExecuteFails \<or> messages db = None \<longrightarrow>
      load_messages_since since db = Inl OperationalError) \<and>
   ((fault db \<noteq> None \<or> messages db = None) \<and> msg_message m = Some t \<and> t \<noteq> [] \<longrightarrow>
      store_message m db = Inl OperationalError) \<and>
   (msg_message m = None \<or> msg_message m = Some [] \<longrightarrow> store_message m db = Inr ((), db))"
proof -
  have f: "f = ConnectFails \<or> f = ExecuteFails \<or> f = CommitFails" for f
    by (cases f) auto
  have g: "fault db = None" if "fault db \<noteq> Some CommitFails" "fault db \<noteq> Some ExecuteFails"
      "fault db \<noteq> Some ConnectFails"
    using that f by (cases "fault db") auto
  show ?thesis
    using g
    by (auto simp: load_messages_since_def sqlite3_connect_def select_since_def store_message_def
        insert_or_ignore_def commit_def split: option.splits)
qed

theorem C8_errors_reach_the_caller_witness:
  "load_messages_since (msg_date first_delivery) unreachable_db = Inl OperationalError \<and>
   store_message first_delivery unreachable_db = Inl OperationalError \<and>
   store_message photo_only unreachable_db = Inr ((), unreachable_db)"
  using C8_errors_reach_the_caller [of unreachable_db "msg_date first_delivery" first_delivery
      "''BTC breaks out''"]
    C8_errors_reach_the_caller [of unreachable_db "msg_date first_delivery" photo_only "[]"]
  by (simp add: unreachable_db_def first_delivery_def photo_only_def)

text \<open>
  C9, as the specification states it, has the call report that the message was ignored.
  The call returns \<^verbatim>\<open>None\<close>, which is what a call that stores a row returns too.
\<close>

theorem C9_no_report:
  "store_message photo_only empty_db = Inr ((), empty_db) \<and>
   store_message first_delivery empty_db = Inr ((), one_row_db) \<and>
   one_row_db \<noteq> empty_db"
  by (simp add: store_message_def sqlite3_connect_def insert_or_ignore_def commit_def
      empty_db_def one_row_db_def first_delivery_def photo_only_def row_of_def same_key_def)

text \<open>
  C9, amended: for every message whose text is absent or empty, \<open>store_message\<close> writes
  nothing and raises nothing: it returns \<^verbatim>\<open>None\<close> and the store is as it was before, in
  every state of the store.
\<close>

theorem C9_empty_text_is_skipped:
  "msg_message m = None \<or> msg_message m = Some [] \<Longrightarrow> store_message m db = Inr ((), db)"
  by (simp add: store_message_def)

theorem C9_empty_text_is_skipped_witness:
  "store_message photo_only one_row_db = Inr ((), one_row_db)"
  by (rule C9_empty_text_is_skipped) (simp add: photo_only_def)

section \<open>The digest: helper facts\<close>

lemma upper_char_upper: "is_upper (upper_char c) \<Longrightarrow> is_upper c \<or> is_lower c"
  by (auto simp: upper_char_def upper_table_def is_upper_def is_lower_def split: if_splits)

lemma letter_not_space: "is_upper c \<or> is_lower c \<Longrightarrow> \<not> is_space c"
  by (cases c) (auto simp: is_upper_def is_lower_def is_space_def)

lemma runs_elements: "w \<in> set (runs P s) \<Longrightarrow> w \<noteq> [] \<and> set w \<subseteq> set s"
proof (induction P s rule: runs.induct)
  case (1 P)
  then show ?case by simp
next
  case (2 P c cs)
  show ?case
  proof (cases "P c")
    case True
    with 2 show ?thesis
      by (auto dest: set_takeWhileD set_dropWhileD)
  next
    case False
    with 2 show ?thesis by auto
  qed
qed

lemma extract_tickers_letter:
  assumes "extract_tickers tx \<noteq> []"
  shows "\<exists>c \<in> set tx. \<not> is_space c"
proof -
  from assms obtain w where w: "w \<in> set (runs is_word (upper tx))" "valid_word w"
    by (auto simp: extract_tickers_eq candidates_of_def filter_empty_conv)
  from runs_elements [OF w(1)] obtain u where u: "u \<in> set w" "u \<in> set (upper tx)"
    by (cases w) auto
  from w(2) u(1) have "is_upper u" by (simp add: valid_word_def list_all_iff)
  with u(2) obtain c where "c \<in> set tx" "is_upper (upper_char c)"
    by (auto simp: upper_def)
  then show ?thesis
    using upper_char_upper letter_not_space by blast
qed

lemma strip_nonempty: "\<exists>c \<in> set s. \<not> is_space c \<Longrightarrow> strip s \<noteq> []"
proof -
  assume "\<exists>c \<in> set s. \<not> is_space c"
  then obtain c where c: "c \<in> set s" "\<not> is_space c" by blast
  then have "dropWhile is_space s \<noteq> []" by (auto simp: dropWhile_eq_Nil_conv)
  moreover have "c \<in> set (dropWhile is_space s)"
    using c by (induction s) auto
  ultimately have "c \<in> set (rev (dropWhile is_space s))" by simp
  then have "dropWhile is_space (rev (dropWhile is_space s)) \<noteq> []"
    using c(2) by (auto simp: dropWhile_eq_Nil_conv)
  then show ?thesis by (simp add: strip_def)
qed

lemma preview_of_nonempty:
  "extract_tickers (or_empty text) \<noteq> [] \<Longrightarrow> preview_of text \<noteq> []"
  using strip_nonempty [OF extract_tickers_letter]
  by (simp add: preview_of_def replace_newline_def)

lemma preview_no_newline: "newline \<notin> set (take n (preview_of text))"
  by (auto simp: preview_of_def replace_newline_def newline_def dest!: in_set_takeD)

lemma take_take_append: "take n (take n xs @ ys) = take n (xs @ ys)"
  by (cases "n \<le> length xs") (simp_all add: min_def)

lemma count_ticker_fst: "fst (count_ticker text st t) = counter_incr (fst st) t"
  by (simp add: count_ticker_def Let_def)

lemma count_ticker_snd:
  "length (snd st t') \<le> 3 \<Longrightarrow>
   snd (count_ticker text st t) t' =
     take 3 (snd st t' @
       (if t' = t \<and> preview_of text \<noteq> [] then [take 160 (preview_of text)] else []))"
  by (auto simp add: count_ticker_def Let_def)

lemma count_tickers_fst: "fst (count_tickers text ts st) = foldl counter_incr (fst st) ts"
  by (induction ts arbitrary: st) (simp_all add: count_ticker_fst)

lemma count_tickers_snd:
  "length (snd st t') \<le> 3 \<Longrightarrow>
   snd (count_tickers text ts st) t' =
     take 3 (snd st t' @
       (if preview_of text \<noteq> []
        then map (\<lambda>t. take 160 (preview_of text)) (filter (\<lambda>t. t = t') ts) else []))"
proof (induction ts arbitrary: st)
  case Nil
  then show ?case by simp
next
  case (Cons t ts)
  let ?st = "count_ticker text st t"
  have s: "snd ?st t' = take 3 (snd st t' @
       (if t' = t \<and> preview_of text \<noteq> [] then [take 160 (preview_of text)] else []))"
    by (rule count_ticker_snd [OF Cons.prems])
  then have "length (snd ?st t') \<le> 3" by simp
  let ?Y = "if t' = t \<and> preview_of text \<noteq> [] then [take 160 (preview_of text)] else []"
  let ?X = "if preview_of text \<noteq> []
        then map (\<lambda>t. take 160 (preview_of text)) (filter (\<lambda>t. t = t') ts) else []"
  have "snd (count_tickers text (t # ts) st) t' = take 3 (take 3 (snd st t' @ ?Y) @ ?X)"
    using Cons.IH [OF \<open>length (snd ?st t') \<le> 3\<close>] by (simp only: count_tickers.simps s)
  also have "\<dots> = take 3 (snd st t' @ (?Y @ ?X))"
    by (simp only: take_take_append append_assoc)
  also have "?Y @ ?X = (if preview_of text \<noteq> []
        then map (\<lambda>t. take 160 (preview_of text)) (filter (\<lambda>t. t = t') (t # ts)) else [])"
    by auto
  finally show ?case .
qed

lemma count_rows_fst: "fst (count_rows rows st) = foldl counter_incr (fst st) (mentions rows)"
  by (induction rows st rule: count_rows.induct) (simp_all add: count_tickers_fst mentions_def)

lemma count_rows_snd:
  "length (snd st t') \<le> 3 \<Longrightarrow>
   snd (count_rows rows st) t' = take 3 (snd st t' @ occurrence_previews t' rows)"
proof (induction rows st rule: count_rows.induct)
  case (1 st)
  then show ?case by (simp add: occurrence_previews_def)
next
  case (2 title date tx rows st)
  let ?ts = "extract_tickers (or_empty tx)"
  let ?st = "count_tickers tx ?ts st"
  have e: "(if preview_of tx \<noteq> []
        then map (\<lambda>t. take 160 (preview_of tx)) (filter (\<lambda>t. t = t') ?ts) else []) =
      map (\<lambda>t. take 160 (preview_of tx)) (filter (\<lambda>t. t = t') ?ts)"
    using preview_of_nonempty [of tx] by (cases "extract_tickers (or_empty tx)") auto
  have s: "snd ?st t' = take 3 (snd st t' @
      map (\<lambda>t. take 160 (preview_of tx)) (filter (\<lambda>t. t = t') ?ts))"
    using count_tickers_snd [OF "2.prems", of tx ?ts] e by simp
  then have "length (snd ?st t') \<le> 3" by simp
  from "2.IH" [OF this] show ?case
    by (simp only: count_rows.simps s take_take_append)
       (simp add: occurrence_previews_def)
qed

lemma samples_eq:
  "snd (count_rows rows ([], \<lambda>ticker. [])) t = take 3 (occurrence_previews t rows)"
  using count_rows_snd [of "([], \<lambda>ticker. [])" t rows] by simp

lemma occurrence_previews_elements:
  assumes "s \<in> set (occurrence_previews t rows)"
  shows "s \<noteq> [] \<and> length s \<le> 160 \<and> newline \<notin> set s"
proof -
  from assms obtain tx where s: "s = take 160 (preview_of tx)"
    and e: "extract_tickers (or_empty tx) \<noteq> []"
    by (fastforce simp: occurrence_previews_def)
  from preview_of_nonempty [OF e] s have "s \<noteq> []" by simp
  moreover have "length s \<le> 160" using s by simp
  moreover have "newline \<notin> set s" unfolding s by (rule preview_no_newline)
  ultimately show ?thesis by blast
qed

lemma counter_incr_not_Nil: "counter_incr c k \<noteq> []"
  by (cases c) (auto split: if_splits)

lemma foldl_counter_incr_Nil: "foldl counter_incr c ts = [] \<longleftrightarrow> c = [] \<and> ts = []"
proof (induction ts arbitrary: c)
  case Nil
  then show ?case by simp
next
  case (Cons t ts)
  then show ?case by (simp add: counter_incr_not_Nil)
qed

lemma keys_counter_incr:
  "map fst (counter_incr c k) = (if k \<in> fst ` set c then map fst c else map fst c @ [k])"
  by (induction c k rule: counter_incr.induct) (auto simp: image_iff)

lemma filter_first_seen_swap:
  "filter P (filter (\<lambda>y. y \<noteq> x) xs) = filter (\<lambda>y. y \<noteq> x) (filter P xs)"
  by (induction xs) auto

lemma keys_foldl_counter_incr:
  "map fst (foldl counter_incr c ts) =
     map fst c @ filter (\<lambda>t. t \<notin> fst ` set c) (first_seen ts)"
proof (induction ts arbitrary: c)
  case Nil
  then show ?case by simp
next
  case (Cons t ts)
  let ?c' = "counter_incr c t"
  have IH: "map fst (foldl counter_incr ?c' ts) =
     map fst ?c' @ filter (\<lambda>u. u \<notin> fst ` set ?c') (first_seen ts)"
    by (rule Cons.IH)
  have keys: "fst ` set ?c' = set (map fst ?c')" by simp
  show ?case
  proof (cases "t \<in> fst ` set c")
    case True
    then have k: "map fst ?c' = map fst c" by (simp add: keys_counter_incr)
    have same: "fst ` set ?c' = fst ` set c"
      unfolding keys k by simp
    have "filter (\<lambda>u. u \<notin> fst ` set c) (filter (\<lambda>y. y \<noteq> t) (first_seen ts)) =
          filter (\<lambda>u. u \<notin> fst ` set c) (first_seen ts)"
      unfolding filter_filter by (rule filter_cong) (use True in auto)
    then show ?thesis
      using True IH by (simp add: k same)
  next
    case False
    then have k: "map fst ?c' = map fst c @ [t]" by (simp add: keys_counter_incr)
    have ins: "fst ` set ?c' = insert t (fst ` set c)"
      unfolding keys k by simp
    have "filter (\<lambda>u. u \<notin> insert t (fst ` set c)) (first_seen ts) =
          filter (\<lambda>u. u \<notin> fst ` set c) (filter (\<lambda>y. y \<noteq> t) (first_seen ts))"
      unfolding filter_filter by (rule filter_cong) auto
    then show ?thesis
      using False IH by (simp add: k ins)
  qed
qed

lemma distinct_first_seen: "distinct (first_seen xs)"
  by (induction xs) auto

lemma set_first_seen: "set (first_seen xs) = set xs"
  by (induction xs) auto

lemma distinct_keys_counter_incr: "distinct (map fst c) \<Longrightarrow> distinct (map fst (counter_incr c k))"
  by (simp add: keys_counter_incr)

lemma map_of_counter_incr:
  "map_of (counter_incr c k) =
     (map_of c)(k \<mapsto> (case map_of c k of None \<Rightarrow> 1 | Some n \<Rightarrow> n + 1))"
  by (induction c k rule: counter_incr.induct) (auto simp: fun_eq_iff)

lemma map_of_foldl_counter_incr:
  "map_of (foldl counter_incr c ts) t =
     (case map_of c t of
        None \<Rightarrow> if t \<in> set ts then Some (count_list ts t) else None
      | Some n \<Rightarrow> Some (n + count_list ts t))"
proof (induction ts arbitrary: c)
  case Nil
  then show ?case by (simp split: option.splits)
next
  case (Cons u ts)
  show ?case
    by (simp add: Cons.IH map_of_counter_incr split: option.splits)
qed

lemma counts_keys:
  "map fst (fst (count_rows rows ([], \<lambda>ticker. []))) = first_seen (mentions rows)"
  by (simp add: count_rows_fst keys_foldl_counter_incr)

lemma counts_values:
  assumes "tc \<in> set (fst (count_rows rows ([], \<lambda>ticker. [])))"
  shows "fst tc \<in> set (mentions rows) \<and> snd tc = count_list (mentions rows) (fst tc)"
proof -
  let ?c = "fst (count_rows rows ([], \<lambda>ticker. []))"
  have "distinct (map fst ?c)" by (simp add: counts_keys distinct_first_seen)
  with assms have "map_of ?c (fst tc) = Some (snd tc)"
    using map_of_is_SomeI [of ?c "fst tc" "snd tc"] by simp
  then show ?thesis
    by (simp add: count_rows_fst map_of_foldl_counter_incr split: if_splits)
qed

lemma counts_empty_iff:
  "fst (count_rows rows ([], \<lambda>ticker. [])) = [] \<longleftrightarrow> mentions rows = []"
  by (simp add: count_rows_fst foldl_counter_incr_Nil)

lemma build_digest_no_mentions:
  assumes "load_messages_since since db = Inr rows"
    and "fst (count_rows rows ([], \<lambda>ticker. [])) = []"
  shows "build_digest since now db = Inr no_mentions"
  using assms by (simp add: build_digest_def Let_def)

lemma build_digest_mentions:
  assumes "load_messages_since since db = Inr rows"
    and "fst (count_rows rows ([], \<lambda>ticker. [])) \<noteq> []"
  shows "build_digest since now db =
     Inr (strip (join_lines (digest_lines since now (fst (count_rows rows ([], \<lambda>ticker. [])))
        (snd (count_rows rows ([], \<lambda>ticker. []))))))"
  using assms by (simp add: build_digest_def Let_def)



lemma samples_length: "length (snd (count_rows rows ([], \<lambda>ticker. [])) t) \<le> 3"
  by (simp add: samples_eq)

lemma sorted_desc_counts:
  "sorted_wrt (\<lambda>a b. snd b \<le> snd a) (sort_key (\<lambda>(ticker, count). - int count) (c :: counter))"
proof -
  have "sorted (map (\<lambda>(ticker, count). - int count) (sort_key (\<lambda>(ticker, count). - int count) c))"
    by (rule sorted_sort_key)
  then show ?thesis
    by (simp add: sorted_map case_prod_unfold)
qed

lemma stable_counts:
  "filter (\<lambda>tc. snd tc = k) (sort_key (\<lambda>(ticker, count). - int count) (c :: counter)) =
   filter (\<lambda>tc. snd tc = k) c"
proof -
  have "(\<lambda>tc :: string \<times> nat. snd tc = k) = (\<lambda>tc. (\<lambda>(ticker, count). - int count) tc = - int k)"
    by (auto simp: fun_eq_iff)
  then show ?thesis by (simp only: sort_key_stable)
qed

lemma sorted_wrt_before:
  assumes "sorted_wrt (\<lambda>a b. snd b \<le> snd a) xs" "i < length xs" "j < length xs"
    "(snd (xs ! j) :: nat) < snd (xs ! i)"
  shows "i < j"
proof (rule ccontr)
  assume "\<not> i < j"
  then have "j < i \<or> j = i" by auto
  then show False
  proof
    assume "j < i"
    from sorted_wrt_nth_less [OF assms(1) this assms(2)] assms(4) show False by simp
  next
    assume "j = i"
    with assms(4) show False by simp
  qed
qed

lemma most_common_split:
  "most_common n c @ drop n (sort_key (\<lambda>(ticker, count). - int count) c) =
   sort_key (\<lambda>(ticker, count). - int count) c"
  by (simp add: most_common_def)

lemma hd_ticker_lines:
  "hd (ticker_lines s tc) = ''$'' @ fst tc @ '' '' @ em_dash @ '' '' @ str_nat (snd tc) @ '' mentions''"
  by (simp add: ticker_lines_def)

section \<open>Claims about the digest\<close>

text \<open>
  C5: whenever the store can be read and at least one symbol is counted,
  \<open>build_digest\<close> renders the symbols of \<open>most_common 15\<close>: at most 15 of them, the first 15
  of the counted symbols sorted by count, largest first, where symbols of equal count keep
  the order in which their counters were created, which is the order of their first
  mention in the rows. A symbol with more mentions is listed before one with fewer, and
  the line of a symbol is \<^verbatim>\<open>$SYMBOL\<close>, a dash, its count and \<^verbatim>\<open>mentions\<close>. The count of a
  symbol is the number of its mentions in the rows of the window.
\<close>

theorem C5_ranking:
  assumes "load_messages_since since db = Inr rows"
    and "fst (count_rows rows ([], \<lambda>ticker. [])) \<noteq> []"
  shows "\<exists>ranked rest.
     build_digest since now db =
       Inr (strip (join_lines
         ([''Daily Telegram Ticker Digest'',
           ''Window: '' @ strftime since @ '' - '' @ strftime now, []] @
          concat (map (ticker_lines (snd (count_rows rows ([], \<lambda>ticker. [])))) ranked)))) \<and>
     length ranked = min 15 (length (fst (count_rows rows ([], \<lambda>ticker. [])))) \<and>
     mset (ranked @ rest) = mset (fst (count_rows rows ([], \<lambda>ticker. []))) \<and>
     sorted_wrt (\<lambda>a b. snd b \<le> snd a) (ranked @ rest) \<and>
     (\<forall>k. filter (\<lambda>tc. snd tc = k) (ranked @ rest) =
          filter (\<lambda>tc. snd tc = k) (fst (count_rows rows ([], \<lambda>ticker. [])))) \<and>
     map fst (fst (count_rows rows ([], \<lambda>ticker. []))) = first_seen (mentions rows) \<and>
     (\<forall>tc \<in> set (fst (count_rows rows ([], \<lambda>ticker. []))).
        snd tc = count_list (mentions rows) (fst tc)) \<and>
     (\<forall>i j. i < length ranked \<and> j < length ranked \<and> snd (ranked ! j) < snd (ranked ! i) \<longrightarrow> i < j) \<and>
     (\<forall>tc \<in> set ranked.
        hd (ticker_lines (snd (count_rows rows ([], \<lambda>ticker. []))) tc) =
          ''$'' @ fst tc @ '' '' @ em_dash @ '' '' @ str_nat (snd tc) @ '' mentions'')"
proof -
  let ?counts = "fst (count_rows rows ([], \<lambda>ticker. []))"
  let ?samples = "snd (count_rows rows ([], \<lambda>ticker. []))"
  let ?sorted = "sort_key (\<lambda>(ticker, count). - int count) ?counts"
  let ?ranked = "most_common 15 ?counts"
  let ?rest = "drop 15 ?sorted"
  have split: "?ranked @ ?rest = ?sorted" by (rule most_common_split)
  have 1: "build_digest since now db =
       Inr (strip (join_lines
         ([''Daily Telegram Ticker Digest'',
           ''Window: '' @ strftime since @ '' - '' @ strftime now, []] @
          concat (map (ticker_lines ?samples) ?ranked))))"
    using build_digest_mentions [OF assms] by (simp add: digest_lines_def)
  have 2: "length ?ranked = min 15 (length ?counts)"
    by (simp add: most_common_def min.commute)
  have 3: "mset (?ranked @ ?rest) = mset ?counts"
    unfolding split by simp
  have 4: "sorted_wrt (\<lambda>a b. snd b \<le> snd a) (?ranked @ ?rest)"
    unfolding split by (rule sorted_desc_counts)
  have 5: "filter (\<lambda>tc. snd tc = k) (?ranked @ ?rest) = filter (\<lambda>tc. snd tc = k) ?counts" for k
    unfolding split by (rule stable_counts)
  have 6: "map fst ?counts = first_seen (mentions rows)" by (rule counts_keys)
  have 7: "snd tc = count_list (mentions rows) (fst tc)" if "tc \<in> set ?counts" for tc
    using counts_values [OF that] by simp
  have r: "sorted_wrt (\<lambda>a b. snd b \<le> snd a) ?ranked"
    using 4 by (simp add: sorted_wrt_append)
  have 8: "i < j" if "i < length ?ranked" "j < length ?ranked"
      "snd (?ranked ! j) < snd (?ranked ! i)" for i j
    using sorted_wrt_before [OF r that] .
  have 9: "hd (ticker_lines ?samples tc) =
          ''$'' @ fst tc @ '' '' @ em_dash @ '' '' @ str_nat (snd tc) @ '' mentions''" for tc
    by (rule hd_ticker_lines)
  show ?thesis
    apply (rule exI [of _ ?ranked], rule exI [of _ ?rest])
    using 1 2 3 4 5 6 7 8 9 by blast
qed

theorem C5_ranking_witness:
  "load_messages_since window_start ranking_db = Inr ranking_window \<and>
   fst (count_rows ranking_window ([], \<lambda>ticker. [])) = [(''ETH'', 3), (''BTC'', 5)] \<and>
   most_common 15 [(''ETH'', 3), (''BTC'', 5)] = [(''BTC'', 5), (''ETH'', 3)] \<and>
   build_digest window_start window_end ranking_db =
     Inr (''Daily Telegram Ticker Digest\<newline>Window: 2024-05-01 09:00 - 2024-05-02 09:00\<newline>\<newline>'' @
          ''$BTC '' @ em_dash @ '' 5 mentions\<newline>'' @
          ''  '' @ bullet @ '' $ETH, $BTC\<newline>'' @
          ''  '' @ bullet @ '' #btc > #eth\<newline>'' @
          ''  '' @ bullet @ '' BTC BTC BTC\<newline>\<newline>'' @
          ''$ETH '' @ em_dash @ '' 3 mentions\<newline>'' @
          ''  '' @ bullet @ '' $ETH, $BTC\<newline>'' @
          ''  '' @ bullet @ '' #btc > #eth\<newline>'' @
          ''  '' @ bullet @ '' eth?'') \<and>
   (\<exists>ranked rest.
     build_digest window_start window_end ranking_db =
       Inr (strip (join_lines
         ([''Daily Telegram Ticker Digest'',
           ''Window: '' @ strftime window_start @ '' - '' @ strftime window_end, []] @
          concat (map (ticker_lines (snd (count_rows ranking_window ([], \<lambda>ticker. [])))) ranked)))) \<and>
     length ranked = min 15 (length (fst (count_rows ranking_window ([], \<lambda>ticker. [])))) \<and>
     mset (ranked @ rest) = mset (fst (count_rows ranking_window ([], \<lambda>ticker. []))) \<and>
     sorted_wrt (\<lambda>a b. snd b \<le> snd a) (ranked @ rest) \<and>
     (\<forall>k. filter (\<lambda>tc. snd tc = k) (ranked @ rest) =
          filter (\<lambda>tc. snd tc = k) (fst (count_rows ranking_window ([], \<lambda>ticker. [])))) \<and>
     map fst (fst (count_rows ranking_window ([], \<lambda>ticker. []))) = first_seen (mentions ranking_window) \<and>
     (\<forall>tc \<in> set (fst (count_rows ranking_window ([], \<lambda>ticker. []))).
        snd tc = count_list (mentions ranking_window) (fst tc)) \<and>
     (\<forall>i j. i < length ranked \<and> j < length ranked \<and> snd (ranked ! j) < snd (ranked ! i) \<longrightarrow> i < j) \<and>
     (\<forall>tc \<in> set ranked.
        hd (ticker_lines (snd (count_rows ranking_window ([], \<lambda>ticker. []))) tc) =
          ''$'' @ fst tc @ '' '' @ em_dash @ '' '' @ str_nat (snd tc) @ '' mentions''))"
proof -
  have 1: "load_messages_since window_start ranking_db = Inr ranking_window"
    by code_simp
  have 2: "fst (count_rows ranking_window ([], \<lambda>ticker. [])) = [(''ETH'', 3), (''BTC'', 5)]"
    by code_simp
  then have ne: "fst (count_rows ranking_window ([], \<lambda>ticker. [])) \<noteq> []" by simp
  have 3: "most_common 15 [(''ETH'', 3), (''BTC'', 5)] = [(''BTC'', 5), (''ETH'', 3)]"
    by code_simp
  have 4: "build_digest window_start window_end ranking_db =
     Inr (''Daily Telegram Ticker Digest\<newline>Window: 2024-05-01 09:00 - 2024-05-02 09:00\<newline>\<newline>'' @
          ''$BTC '' @ em_dash @ '' 5 mentions\<newline>'' @
          ''  '' @ bullet @ '' $ETH, $BTC\<newline>'' @
          ''  '' @ bullet @ '' #btc > #eth\<newline>'' @
          ''  '' @ bullet @ '' BTC BTC BTC\<newline>\<newline>'' @
          ''$ETH '' @ em_dash @ '' 3 mentions\<newline>'' @
          ''  '' @ bullet @ '' $ETH, $BTC\<newline>'' @
          ''  '' @ bullet @ '' #btc > #eth\<newline>'' @
          ''  '' @ bullet @ '' eth?'')"
    by code_simp
  from C5_ranking [OF 1 ne, of window_end] have 5: "\<exists>ranked rest.
     build_digest window_start window_end ranking_db =
       Inr (strip (join_lines
         ([''Daily Telegram Ticker Digest'',
           ''Window: '' @ strftime window_start @ '' - '' @ strftime window_end, []] @
          concat (map (ticker_lines (snd (count_rows ranking_window ([], \<lambda>ticker. [])))) ranked)))) \<and>
     length ranked = min 15 (length (fst (count_rows ranking_window ([], \<lambda>ticker. [])))) \<and>
     mset (ranked @ rest) = mset (fst (count_rows ranking_window ([], \<lambda>ticker. []))) \<and>
     sorted_wrt (\<lambda>a b. snd b \<le> snd a) (ranked @ rest) \<and>
     (\<forall>k. filter (\<lambda>tc. snd tc = k) (ranked @ rest) =
          filter (\<lambda>tc. snd tc = k) (fst (count_rows ranking_window ([], \<lambda>ticker. [])))) \<and>
     map fst (fst (count_rows ranking_window ([], \<lambda>ticker. []))) = first_seen (mentions ranking_window) \<and>
     (\<forall>tc \<in> set (fst (count_rows ranking_window ([], \<lambda>ticker. []))).
        snd tc = count_list (mentions ranking_window) (fst tc)) \<and>
     (\<forall>i j. i < length ranked \<and> j < length ranked \<and> snd (ranked ! j) < snd (ranked ! i) \<longrightarrow> i < j) \<and>
     (\<forall>tc \<in> set ranked.
        hd (ticker_lines (snd (count_rows ranking_window ([], \<lambda>ticker. []))) tc) =
          ''$'' @ fst tc @ '' '' @ em_dash @ '' '' @ str_nat (snd tc) @ '' mentions'')" .
  show ?thesis
    using 1 2 3 4 5 by - (intro conjI, assumption+)
qed

text \<open>
  C6, as the specification states it, has the samples of a symbol pairwise distinct.
  A sample is appended for each mention, and nothing compares it with the samples that
  are there: a message that names a symbol twice is its sample twice.
\<close>

theorem C6_samples_not_distinct:
  "load_messages_since window_start double_mention_db =
     Inr [(Some ''Alpha calls'', ''2024-05-01T10:00:00+00:00'', Some ''BTC or not BTC'')] \<and>
   snd (count_rows [(Some ''Alpha calls'', ''2024-05-01T10:00:00+00:00'', Some ''BTC or not BTC'')]
          ([], \<lambda>ticker. [])) ''BTC'' = [''BTC or not BTC'', ''BTC or not BTC'']"
  by code_simp

text \<open>
  C6, amended: in every digest run the rows are processed in ascending order of their
  date, and for every symbol the sample list is the first three of the previews of the
  rows of its mentions, in that order, one for each mention, so that a row that mentions
  the symbol twice is sampled twice. The list has at most 3 entries, so that a symbol is
  rendered in at most 5 lines; each entry is non-empty, at most 160 characters long and
  contains no newline.
\<close>

theorem C6_samples:
  assumes "load_messages_since since db = Inr rows"
  shows "sorted (map (\<lambda>(title, date, text). date) rows) \<and>
     (\<forall>ticker.
        snd (count_rows rows ([], \<lambda>ticker. [])) ticker = take 3 (occurrence_previews ticker rows) \<and>
        length (snd (count_rows rows ([], \<lambda>ticker. [])) ticker) \<le> 3 \<and>
        (\<forall>sample \<in> set (snd (count_rows rows ([], \<lambda>ticker. [])) ticker).
           sample \<noteq> [] \<and> length sample \<le> 160 \<and> newline \<notin> set sample) \<and>
        (\<forall>count. length (ticker_lines (snd (count_rows rows ([], \<lambda>ticker. []))) (ticker, count)) \<le> 5))"
proof -
  obtain tbl where "messages db = Some tbl" "fault db \<noteq> Some ConnectFails"
    "fault db \<noteq> Some ExecuteFails"
    using load_messages_since_Inr [OF assms] by blast
  then have "rows = map (\<lambda>r. (chat_title r, message_date r, row_text r))
        (sort_key message_date (filter (\<lambda>r. isoformat since \<le> message_date r) tbl))"
    using load_messages_since_ok [of db tbl since] assms by simp
  then have "map (\<lambda>(title, date, text). date) rows =
      map message_date (sort_key message_date (filter (\<lambda>r. isoformat since \<le> message_date r) tbl))"
    by (simp add: comp_def)
  then have 1: "sorted (map (\<lambda>(title, date, text). date) rows)"
    by (simp only: sorted_sort_key)
  have 2: "sample \<noteq> [] \<and> length sample \<le> 160 \<and> newline \<notin> set sample"
    if "sample \<in> set (snd (count_rows rows ([], \<lambda>ticker. [])) ticker)" for sample ticker
    using that occurrence_previews_elements [of sample ticker rows]
    by (auto simp: samples_eq dest: in_set_takeD)
  have 3: "length (ticker_lines (snd (count_rows rows ([], \<lambda>ticker. []))) (ticker, count)) \<le> 5"
    for ticker count
    using samples_length [of rows ticker] by (simp add: ticker_lines_def)
  show ?thesis
    using 1 2 3 by (simp add: samples_eq)
qed

theorem C6_samples_witness:
  "load_messages_since window_start double_mention_db =
     Inr [(Some ''Alpha calls'', ''2024-05-01T10:00:00+00:00'', Some ''BTC or not BTC'')] \<and>
   sorted (map (\<lambda>(title, date, text). date)
     [(Some ''Alpha calls'', ''2024-05-01T10:00:00+00:00'', Some ''BTC or not BTC'')]) \<and>
   occurrence_previews ''BTC''
     [(Some ''Alpha calls'', ''2024-05-01T10:00:00+00:00'', Some ''BTC or not BTC'')] =
     [''BTC or not BTC'', ''BTC or not BTC''] \<and>
   snd (count_rows [(Some ''Alpha calls'', ''2024-05-01T10:00:00+00:00'', Some ''BTC or not BTC'')]
        ([], \<lambda>ticker. [])) ''BTC'' =
     take 3 (occurrence_previews ''BTC''
       [(Some ''Alpha calls'', ''2024-05-01T10:00:00+00:00'', Some ''BTC or not BTC'')]) \<and>
   length (snd (count_rows [(Some ''Alpha calls'', ''2024-05-01T10:00:00+00:00'', Some ''BTC or not BTC'')]
        ([], \<lambda>ticker. [])) ''BTC'') \<le> 3 \<and>
   ''BTC or not BTC'' \<noteq> [] \<and> length ''BTC or not BTC'' \<le> 160 \<and>
   newline \<notin> set ''BTC or not BTC''"
proof -
  let ?rows = "[(Some ''Alpha calls'', ''2024-05-01T10:00:00+00:00'', Some ''BTC or not BTC'')]"
  have 1: "load_messages_since window_start double_mention_db = Inr ?rows"
    by code_simp
  note t = C6_samples [OF 1]
  have o: "occurrence_previews ''BTC'' ?rows = [''BTC or not BTC'', ''BTC or not BTC'']"
    by code_simp
  from t have s: "snd (count_rows ?rows ([], \<lambda>ticker. [])) ''BTC'' =
      take 3 (occurrence_previews ''BTC'' ?rows)" by blast
  then have "''BTC or not BTC'' \<in> set (snd (count_rows ?rows ([], \<lambda>ticker. [])) ''BTC'')"
    by (simp add: o)
  with t have e: "''BTC or not BTC'' \<noteq> [] \<and> length ''BTC or not BTC'' \<le> 160 \<and>
      newline \<notin> set ''BTC or not BTC''"
    by blast
  from t have l: "length (snd (count_rows ?rows ([], \<lambda>ticker. [])) ''BTC'') \<le> 3" by blast
  from t have so: "sorted (map (\<lambda>(title, date, text). date) ?rows)" by blast
  show ?thesis
    using 1 so o s l e by - (intro conjI, (assumption | blast)+)
qed

text \<open>
  C7: whenever the store can be read and no symbol is counted in the window, an empty
  store included, \<open>build_digest\<close> returns exactly the header, an empty line and the
  sentence that no ticker mentions were found, without window or counts.
\<close>

theorem C7_no_mentions_report:
  assumes "load_messages_since since db = Inr rows"
    and "fst (count_rows rows ([], \<lambda>ticker. [])) = []"
  shows "build_digest since now db =
     Inr ''Daily Telegram Ticker Digest\<newline>\<newline>No ticker mentions found in the last 24 hours.''"
  using build_digest_no_mentions [OF assms] by (simp add: no_mentions_def newline_def)

theorem C7_no_mentions_report_witness:
  "load_messages_since window_end ranking_db = Inr [] \<and>
   fst (count_rows [] ([], \<lambda>ticker. [])) = [] \<and>
   build_digest window_end window_end ranking_db =
     Inr ''Daily Telegram Ticker Digest\<newline>\<newline>No ticker mentions found in the last 24 hours.''"
proof -
  have 1: "load_messages_since window_end ranking_db = Inr []" by code_simp
  have 2: "fst (count_rows [] ([], \<lambda>ticker. [])) = []" by simp
  from 1 2 C7_no_mentions_report [OF 1 2, of window_end] show ?thesis by blast
qed



end
